theory Spec2Isabelle
  imports Main "HOL-Library.Word" "HOL-Library.AList"
begin

unbundle bit_operations_syntax

section \<open>SHA-256 (the digest behind \<open>createHash("sha256")\<close>)\<close>

text \<open>
  The fingerprint of an event is the lower-case hexadecimal SHA-256 digest of a string.
  The digest is the one of FIPS 180-4, over the bytes of the string; a \<open>string\<close> here is
  the list of the bytes of the UTF-8 encoding that \<open>update\<close> hashes.
\<close>

type_synonym w32 = "32 word"

definition rotr :: "nat \<Rightarrow> w32 \<Rightarrow> w32" where
  "rotr n x = drop_bit n x OR push_bit (32 - n) x"

definition Ch :: "w32 \<Rightarrow> w32 \<Rightarrow> w32 \<Rightarrow> w32" where
  "Ch x y z = (x AND y) XOR (NOT x AND z)"

definition Maj :: "w32 \<Rightarrow> w32 \<Rightarrow> w32 \<Rightarrow> w32" where
  "Maj x y z = (x AND y) XOR (x AND z) XOR (y AND z)"

definition Sigma0 :: "w32 \<Rightarrow> w32" where
  "Sigma0 x = rotr 2 x XOR rotr 13 x XOR rotr 22 x"

definition Sigma1 :: "w32 \<Rightarrow> w32" where
  "Sigma1 x = rotr 6 x XOR rotr 11 x XOR rotr 25 x"

definition sigma0 :: "w32 \<Rightarrow> w32" where
  "sigma0 x = rotr 7 x XOR rotr 18 x XOR drop_bit 3 x"

definition sigma1 :: "w32 \<Rightarrow> w32" where
  "sigma1 x = rotr 17 x XOR rotr 19 x XOR drop_bit 10 x"

text \<open>The round constants and the initial hash value of FIPS 180-4, in decimal.\<close>

definition K256 :: "w32 list" where
  "K256 =
   [1116352408, 1899447441, 3049323471, 3921009573, 961987163, 1508970993,
    2453635748, 2870763221, 3624381080, 310598401, 607225278, 1426881987,
    1925078388, 2162078206, 2614888103, 3248222580, 3835390401, 4022224774,
    264347078, 604807628, 770255983, 1249150122, 1555081692, 1996064986,
    2554220882, 2821834349, 2952996808, 3210313671, 3336571891, 3584528711,
    113926993, 338241895, 666307205, 773529912, 1294757372, 1396182291,
    1695183700, 1986661051, 2177026350, 2456956037, 2730485921, 2820302411,
    3259730800, 3345764771, 3516065817, 3600352804, 4094571909, 275423344,
    430227734, 506948616, 659060556, 883997877, 958139571, 1322822218,
    1537002063, 1747873779, 1955562222, 2024104815, 2227730452, 2361852424,
    2428436474, 2756734187, 3204031479, 3329325298]"

text \<open>Big-endian bytes of a number, \<open>n\<close> bytes wide.\<close>

fun be_bytes :: "nat \<Rightarrow> nat \<Rightarrow> nat list" where
  "be_bytes 0 v = []"
| "be_bytes (Suc n) v = be_bytes n (v div 256) @ [v mod 256]"

text \<open>Padding: the byte 0x80, zeros up to 56 modulo 64, the bit length on 8 bytes.\<close>

definition pad :: "nat list \<Rightarrow> nat list" where
  "pad bs = bs @ [0x80] @ replicate ((119 - length bs mod 64) mod 64) 0
              @ be_bytes 8 (8 * length bs)"

definition be_word :: "nat list \<Rightarrow> w32" where
  "be_word bs = foldl (\<lambda>a b. push_bit 8 a + of_nat b) 0 bs"

fun chunks :: "nat \<Rightarrow> nat \<Rightarrow> 'a list \<Rightarrow> 'a list list" where
  "chunks 0 n xs = []"
| "chunks (Suc k) n xs = take n xs # chunks k n (drop n xs)"

text \<open>The message schedule: \<open>k\<close> more words after the 16 of the block.\<close>

fun schedule :: "nat \<Rightarrow> w32 list \<Rightarrow> w32 list" where
  "schedule 0 w = w"
| "schedule (Suc k) w =
     schedule k (w @ [sigma1 (w ! (length w - 2)) + w ! (length w - 7)
                      + sigma0 (w ! (length w - 15)) + w ! (length w - 16)])"

type_synonym sha_state = "w32 \<times> w32 \<times> w32 \<times> w32 \<times> w32 \<times> w32 \<times> w32 \<times> w32"

fun round256 :: "sha_state \<Rightarrow> (w32 \<times> w32) \<Rightarrow> sha_state" where
  "round256 (a, b, c, d, e, f, g, h) (k, w) =
     (let t1 = h + Sigma1 e + Ch e f g + k + w;
          t2 = Sigma0 a + Maj a b c
      in (t1 + t2, a, b, c, d + t1, e, f, g))"

fun add_state :: "sha_state \<Rightarrow> sha_state \<Rightarrow> sha_state" where
  "add_state (a, b, c, d, e, f, g, h) (a', b', c', d', e', f', g', h') =
     (a + a', b + b', c + c', d + d', e + e', f + f', g + g', h + h')"

definition compress :: "sha_state \<Rightarrow> nat list \<Rightarrow> sha_state" where
  "compress st block =
     add_state st (foldl round256 st (zip K256 (schedule 48 (map be_word (chunks 16 4 block)))))"

definition H256 :: sha_state where
  "H256 = (1779033703, 3144134277, 1013904242, 2773480762,
           1359893119, 2600822924, 528734635, 1541459225)"

definition hex_digit :: "w32 \<Rightarrow> char" where
  "hex_digit d = ''0123456789abcdef'' ! unat (d AND 0xF)"

definition hex_word :: "w32 \<Rightarrow> string" where
  "hex_word w = map (\<lambda>i. hex_digit (drop_bit (4 * i) w)) [7, 6, 5, 4, 3, 2, 1, 0]"

fun hex_state :: "sha_state \<Rightarrow> string" where
  "hex_state (a, b, c, d, e, f, g, h) = concat (map hex_word [a, b, c, d, e, f, g, h])"

text \<open>\<open>createHash("sha256").update(s).digest("hex")\<close>\<close>

definition sha256_hex :: "string \<Rightarrow> string" where
  "sha256_hex s =
     (let bs = pad (map of_char s)
      in hex_state (foldl compress H256 (chunks (length bs div 64) 64 bs)))"

section \<open>JavaScript values and operators used by the fingerprinter\<close>

text \<open>
  An optional property of an event is an \<open>option\<close>: \<open>None\<close> is \<open>undefined\<close>. Optional
  chaining \<open>a?.b\<close> is \<open>Option.bind\<close>. The operator \<open>||\<close> yields its right operand when
  the left one is falsy; for a string that is \<open>undefined\<close> or the empty string.
\<close>

definition truthy :: "string option \<Rightarrow> bool" where
  "truthy a = (case a of None \<Rightarrow> False | Some s \<Rightarrow> s \<noteq> [])"

definition js_or :: "string option \<Rightarrow> string option \<Rightarrow> string option" where
  "js_or a b = (if truthy a then a else b)"

text \<open>\<open>a || "literal"\<close>: the right operand is a string, so is the result.\<close>

definition js_or_lit :: "string option \<Rightarrow> string \<Rightarrow> string" where
  "js_or_lit a lit = (case a of None \<Rightarrow> lit | Some s \<Rightarrow> if s = [] then lit else s)"

text \<open>\<open>xs[0]\<close> is \<open>undefined\<close> on an empty array.\<close>

definition index0 :: "'a list \<Rightarrow> 'a option" where
  "index0 xs = (case xs of [] \<Rightarrow> None | x # _ \<Rightarrow> Some x)"

text \<open>
  \<open>xs.slice(start)\<close>: a negative \<open>start\<close> counts from the end and is clamped at the
  start of the array; a positive one is clamped at its end.
\<close>

definition slice_arr :: "int \<Rightarrow> 'a list \<Rightarrow> 'a list" where
  "slice_arr start xs =
     (let len = int (length xs);
          k = (if start < 0 then max (len + start) 0 else min start len)
      in drop (nat k) xs)"

text \<open>\<open>xs.join(sep)\<close> on an array of strings.\<close>

fun join :: "string \<Rightarrow> string list \<Rightarrow> string" where
  "join sep [] = []"
| "join sep [x] = x"
| "join sep (x # y # ys) = x @ sep @ join sep (y # ys)"

text \<open>
  Template literals convert each interpolated value to a string: \<open>undefined\<close> to the text
  \<open>undefined\<close>, a string to itself, an integral number to its decimal digits with a
  leading minus sign when negative. Line numbers are modelled as integers.
\<close>

definition digit_char :: "nat \<Rightarrow> char" where
  "digit_char d = ''0123456789'' ! (d mod 10)"

fun show_nat :: "nat \<Rightarrow> string" where
  "show_nat n = (if n < 10 then [digit_char n] else show_nat (n div 10) @ [digit_char (n mod 10)])"

declare show_nat.simps [simp del]

definition show_int :: "int \<Rightarrow> string" where
  "show_int i = (if i < 0 then CHR ''-'' # show_nat (nat (- i)) else show_nat (nat i))"

datatype js_value = Undefined | Str string | Num int

fun ToString :: "js_value \<Rightarrow> string" where
  "ToString Undefined = ''undefined''"
| "ToString (Str s) = s"
| "ToString (Num n) = show_int n"

definition of_string :: "string option \<Rightarrow> js_value" where
  "of_string a = (case a of None \<Rightarrow> Undefined | Some s \<Rightarrow> Str s)"

definition of_number :: "int option \<Rightarrow> js_value" where
  "of_number a = (case a of None \<Rightarrow> Undefined | Some n \<Rightarrow> Num n)"

section \<open>Events and the fingerprint\<close>

text \<open>
  The part of \<open>Sentry.ErrorEvent\<close> that \<open>getErrorFingerprint\<close> reads:
  \<open>{ message?, exception?: { values?: [{ type?, value?, stacktrace?: { frames?:
  [{ filename?, lineno? }] } }] } }\<close>.
\<close>

record StackFrame =
  filename :: "string option"
  lineno :: "int option"

record Stacktrace =
  frames :: "StackFrame list option"

record Exception =
  exc_type :: "string option"
  exc_value :: "string option"
  stacktrace :: "Stacktrace option"

record ExceptionValues =
  exc_values :: "Exception list option"

record ErrorEvent =
  message :: "string option"
  exception :: "ExceptionValues option"

text \<open>\<open>event.exception?.values?.[0]\<close>\<close>

definition first_exception :: "ErrorEvent \<Rightarrow> Exception option" where
  "first_exception event =
     Option.bind (exception event) (\<lambda>x. Option.bind (exc_values x) index0)"

text \<open>\<open>event.message || event.exception?.values?.[0]?.value || "unknown"\<close>\<close>

definition message_part :: "ErrorEvent \<Rightarrow> string" where
  "message_part event =
     js_or_lit (js_or (message event) (Option.bind (first_exception event) exc_value)) ''unknown''"

text \<open>\<open>event.exception?.values?.[0]?.type || "Error"\<close>\<close>

definition type_part :: "ErrorEvent \<Rightarrow> string" where
  "type_part event = js_or_lit (Option.bind (first_exception event) exc_type) ''Error''"

text \<open>The template literal \<open>`${f.filename}:${f.lineno}`\<close>\<close>

definition frame_text :: "StackFrame \<Rightarrow> string" where
  "frame_text f = ToString (of_string (filename f)) @ '':'' @ ToString (of_number (lineno f))"

text \<open>\<open>event.exception?.values?.[0]?.stacktrace?.frames\<close>\<close>

definition event_frames :: "ErrorEvent \<Rightarrow> StackFrame list option" where
  "event_frames event = Option.bind (Option.bind (first_exception event) stacktrace) frames"

text \<open>\<open>frames?.slice(-3).map(...).join("|") || ""\<close>\<close>

definition stacktrace_part :: "ErrorEvent \<Rightarrow> string" where
  "stacktrace_part event =
     js_or_lit (map_option (\<lambda>fs. join ''|'' (map frame_text (slice_arr (- 3) fs))) (event_frames event)) ''''"

text \<open>The string that is hashed: \<open>`${type}:${message}:${stacktrace}`\<close>\<close>

definition fingerprint_text :: "ErrorEvent \<Rightarrow> string" where
  "fingerprint_text event =
     type_part event @ '':'' @ message_part event @ '':'' @ stacktrace_part event"

definition getErrorFingerprint :: "ErrorEvent \<Rightarrow> string" where
  "getErrorFingerprint event = sha256_hex (fingerprint_text event)"

text \<open>The frames that reach the fingerprint: the last three, none when there are no frames.\<close>

definition retained_frames :: "ErrorEvent \<Rightarrow> StackFrame list" where
  "retained_frames event = (case event_frames event of None \<Rightarrow> [] | Some fs \<Rightarrow> slice_arr (- 3) fs)"

section \<open>The rate limiter\<close>

record ErrorRateLimit =
  count :: int
  firstSeen :: int
  lastSeen :: int

record SentryRateLimiterOptions =
  opt_maxReportsPerWindow :: "int option"
  opt_windowHours :: "int option"
  opt_cleanupIntervalMinutes :: "int option"

text \<open>The handle that \<open>setInterval\<close> returns, with the period it was given.\<close>

datatype Timeout = Timeout int

text \<open>
  The fields of the class. \<open>errorCounts\<close> is a \<open>Map\<close>: an association list in
  insertion order whose keys are distinct. Times and durations are whole milliseconds,
  as \<open>Date.now()\<close> returns them; the cap and the counts are integers, and the options
  carry whole hours and minutes.
\<close>

record SentryRateLimiter =
  errorCounts :: "(string \<times> ErrorRateLimit) list"
  maxReportsPerWindow :: int
  windowMs :: int
  cleanupIntervalMs :: int
  cleanupTimer :: "Timeout option"

text \<open>\<open>a ?? d\<close>\<close>

definition nullish :: "'a option \<Rightarrow> 'a \<Rightarrow> 'a" where
  "nullish a d = (case a of None \<Rightarrow> d | Some v \<Rightarrow> v)"

definition new_SentryRateLimiter :: "SentryRateLimiterOptions \<Rightarrow> SentryRateLimiter" where
  "new_SentryRateLimiter options =
     (let cleanupIntervalMs' = nullish (opt_cleanupIntervalMinutes options) 15 * 60 * 1000
      in \<lparr> errorCounts = [],
           maxReportsPerWindow = nullish (opt_maxReportsPerWindow options) 5,
           windowMs = nullish (opt_windowHours options) 1 * 60 * 60 * 1000,
           cleanupIntervalMs = cleanupIntervalMs',
           cleanupTimer = Some (Timeout cleanupIntervalMs') \<rparr>)"

text \<open>
  \<open>shouldReport\<close> reads the clock once; the reading is the argument \<open>now\<close>. The result
  is the returned boolean and the limiter after the call. \<open>Map.set\<close> keeps the place of
  a key that is present and appends a new one, as \<open>AList.update\<close> does; assigning to a
  field of \<open>existing\<close> changes the entry held by the map.
\<close>

definition shouldReport :: "SentryRateLimiter \<Rightarrow> ErrorEvent \<Rightarrow> int \<Rightarrow> bool \<times> SentryRateLimiter" where
  "shouldReport this event now =
     (let fingerprint = getErrorFingerprint event
      in case map_of (errorCounts this) fingerprint of
           None \<Rightarrow>
             (True, this\<lparr>errorCounts := AList.update fingerprint
                      \<lparr>count = 1, firstSeen = now, lastSeen = now\<rparr> (errorCounts this)\<rparr>)
         | Some existing \<Rightarrow>
             (let windowStart = now - windowMs this
              in if firstSeen existing < windowStart then
                   (True, this\<lparr>errorCounts := AList.update fingerprint
                            \<lparr>count = 1, firstSeen = now, lastSeen = now\<rparr> (errorCounts this)\<rparr>)
                 else if count existing \<ge> maxReportsPerWindow this then
                   (False, this\<lparr>errorCounts := AList.update fingerprint
                             (existing\<lparr>lastSeen := now\<rparr>) (errorCounts this)\<rparr>)
                 else
                   (True, this\<lparr>errorCounts := AList.update fingerprint
                            (existing\<lparr>count := count existing + 1, lastSeen := now\<rparr>)
                            (errorCounts this)\<rparr>)))"

text \<open>
  The sweep visits the entries the map holds and deletes by key, so \<open>cleanup_loop\<close> runs
  over the entries with the map as its accumulator; a deletion only removes the entry
  being visited.
\<close>

fun cleanup_loop ::
  "int \<Rightarrow> (string \<times> ErrorRateLimit) list \<Rightarrow> (string \<times> ErrorRateLimit) list
     \<Rightarrow> (string \<times> ErrorRateLimit) list" where
  "cleanup_loop cutoff [] m = m"
| "cleanup_loop cutoff ((fingerprint, data) # rest) m =
     cleanup_loop cutoff rest (if lastSeen data < cutoff then AList.delete fingerprint m else m)"

definition cleanup :: "SentryRateLimiter \<Rightarrow> int \<Rightarrow> SentryRateLimiter" where
  "cleanup this now =
     (let cutoff = now - windowMs this
      in this\<lparr>errorCounts := cleanup_loop cutoff (errorCounts this) (errorCounts this)\<rparr>)"

datatype Date = Date int

record ErrorStats =
  fingerprint :: string
  stat_count :: int
  stat_firstSeen :: Date
  stat_lastSeen :: Date

record Stats =
  trackedErrors :: nat
  errors :: "ErrorStats list"

definition getStats :: "SentryRateLimiter \<Rightarrow> Stats" where
  "getStats this =
     \<lparr> trackedErrors = length (errorCounts this),
       errors = map (\<lambda>(fp, data).
                  \<lparr> fingerprint = fp, stat_count = count data,
                    stat_firstSeen = Date (firstSeen data),
                    stat_lastSeen = Date (lastSeen data) \<rparr>)
                (errorCounts this) \<rparr>"

definition destroy :: "SentryRateLimiter \<Rightarrow> SentryRateLimiter" where
  "destroy this =
     (let this' = (case cleanupTimer this of
                     Some t \<Rightarrow> this\<lparr>cleanupTimer := None\<rparr>
                   | None \<Rightarrow> this)
      in this'\<lparr>errorCounts := []\<rparr>)"

definition createBeforeSend ::
  "SentryRateLimiter \<Rightarrow> ErrorEvent \<Rightarrow> int \<Rightarrow> ErrorEvent option \<times> SentryRateLimiter" where
  "createBeforeSend rateLimiter event now =
     (case shouldReport rateLimiter event now of
        (admit, rateLimiter') \<Rightarrow> (if \<not> admit then None else Some event, rateLimiter'))"

section \<open>Runs of the limiter\<close>

text \<open>
  A run is a list of calls, each with the clock reading it makes. The sweep is a call of
  the timer; a run may hold one at any place.
\<close>

datatype call = ShouldReport ErrorEvent int | Cleanup int | GetStats | Destroy

fun exec :: "SentryRateLimiter \<Rightarrow> call \<Rightarrow> SentryRateLimiter" where
  "exec this (ShouldReport event now) = snd (shouldReport this event now)"
| "exec this (Cleanup now) = cleanup this now"
| "exec this GetStats = (case getStats this of stats \<Rightarrow> this)"
| "exec this Destroy = destroy this"

definition run :: "SentryRateLimiter \<Rightarrow> call list \<Rightarrow> SentryRateLimiter" where
  "run this calls = foldl exec this calls"

fun clock :: "call \<Rightarrow> int option" where
  "clock (ShouldReport event now) = Some now"
| "clock (Cleanup now) = Some now"
| "clock GetStats = None"
| "clock Destroy = None"

text \<open>The clock readings of a run, in order.\<close>

definition clocks :: "call list \<Rightarrow> int list" where
  "clocks calls = List.map_filter clock calls"

text \<open>The booleans that successive \<open>shouldReport\<close> calls return.\<close>

fun shouldReport_all :: "SentryRateLimiter \<Rightarrow> (ErrorEvent \<times> int) list \<Rightarrow> bool list" where
  "shouldReport_all this [] = []"
| "shouldReport_all this ((event, now) # rest) =
     (case shouldReport this event now of
        (admit, this') \<Rightarrow> admit # shouldReport_all this' rest)"

text \<open>What holds of every tracked entry.\<close>

definition entry_ok :: "ErrorRateLimit \<Rightarrow> bool" where
  "entry_ok d = (1 \<le> count d \<and> firstSeen d \<le> lastSeen d)"

definition entries_ok :: "SentryRateLimiter \<Rightarrow> bool" where
  "entries_ok this = list_all (\<lambda>(fp, d). entry_ok d) (errorCounts this)"

section \<open>Auxiliary notions for the statements\<close>

text \<open>An event with one exception, as the SDK builds it for a thrown error.\<close>

definition error_event ::
  "string option \<Rightarrow> string option \<Rightarrow> string option \<Rightarrow> StackFrame list option \<Rightarrow> ErrorEvent" where
  "error_event msg ty val fs =
     \<lparr> message = msg,
       exception = Some \<lparr> exc_values = Some
         [\<lparr> exc_type = ty, exc_value = val, stacktrace = Some \<lparr> frames = fs \<rparr> \<rparr>] \<rparr> \<rparr>"

text \<open>Two events that differ in the line number of their only frame.\<close>

definition event_A :: ErrorEvent where
  "event_A = error_event None (Some ''TypeError'') (Some ''x is undefined'')
               (Some [\<lparr> filename = Some ''app.js'', lineno = Some 10 \<rparr>])"

definition event_B :: ErrorEvent where
  "event_B = error_event None (Some ''TypeError'') (Some ''x is undefined'')
               (Some [\<lparr> filename = Some ''app.js'', lineno = Some 11 \<rparr>])"

text \<open>A limiter with a cap of two reports in a window of one hour.\<close>

definition limiter_2 :: SentryRateLimiter where
  "limiter_2 = new_SentryRateLimiter
     \<lparr> opt_maxReportsPerWindow = Some 2, opt_windowHours = Some 1,
       opt_cleanupIntervalMinutes = None \<rparr>"





text \<open>The keys that a sweep over the entries \<open>es\<close> deletes.\<close>

definition stale_keys :: "int \<Rightarrow> (string \<times> ErrorRateLimit) list \<Rightarrow> string set" where
  "stale_keys cutoff es = set (map fst (filter (\<lambda>(fp, d). lastSeen d < cutoff) es))"

text \<open>Every entry is well formed and was last seen no later than \<open>t\<close>.\<close>

definition entries_upto :: "int \<Rightarrow> SentryRateLimiter \<Rightarrow> bool" where
  "entries_upto t this =
     (\<forall>(fp, d) \<in> set (errorCounts this). entry_ok d \<and> lastSeen d \<le> t)"

section \<open>The four outcomes of a call\<close>

lemma shouldReport_fields:
  "maxReportsPerWindow (snd (shouldReport this event now)) = maxReportsPerWindow this"
  "windowMs (snd (shouldReport this event now)) = windowMs this"
  "cleanupIntervalMs (snd (shouldReport this event now)) = cleanupIntervalMs this"
  "cleanupTimer (snd (shouldReport this event now)) = cleanupTimer this"
  by (simp_all add: shouldReport_def Let_def split: option.splits)

lemma shouldReport_frame:
  "(snd (shouldReport this event now))\<lparr>errorCounts := errorCounts this\<rparr> = this"
  by (simp add: shouldReport_def Let_def split: option.splits)

lemma shouldReport_fresh:
  assumes "map_of (errorCounts this) (getErrorFingerprint event) = None"
  shows "shouldReport this event now =
           (True, this\<lparr>errorCounts := AList.update (getErrorFingerprint event)
                     \<lparr>count = 1, firstSeen = now, lastSeen = now\<rparr> (errorCounts this)\<rparr>)"
  using assms by (simp add: shouldReport_def)

lemma shouldReport_expired:
  assumes "map_of (errorCounts this) (getErrorFingerprint event) = Some existing"
      and "firstSeen existing < now - windowMs this"
  shows "shouldReport this event now =
           (True, this\<lparr>errorCounts := AList.update (getErrorFingerprint event)
                     \<lparr>count = 1, firstSeen = now, lastSeen = now\<rparr> (errorCounts this)\<rparr>)"
  using assms by (simp add: shouldReport_def)

lemma shouldReport_capped:
  assumes "map_of (errorCounts this) (getErrorFingerprint event) = Some existing"
      and "\<not> firstSeen existing < now - windowMs this"
      and "maxReportsPerWindow this \<le> count existing"
  shows "shouldReport this event now =
           (False, this\<lparr>errorCounts := AList.update (getErrorFingerprint event)
                     (existing\<lparr>lastSeen := now\<rparr>) (errorCounts this)\<rparr>)"
  using assms by (simp add: shouldReport_def)

lemma shouldReport_admit:
  assumes "map_of (errorCounts this) (getErrorFingerprint event) = Some existing"
      and "\<not> firstSeen existing < now - windowMs this"
      and "count existing < maxReportsPerWindow this"
  shows "shouldReport this event now =
           (True, this\<lparr>errorCounts := AList.update (getErrorFingerprint event)
                     (existing\<lparr>count := count existing + 1, lastSeen := now\<rparr>) (errorCounts this)\<rparr>)"
  using assms by (simp add: shouldReport_def)

lemma destroy_eq: "destroy this = this\<lparr>cleanupTimer := None, errorCounts := []\<rparr>"
  by (cases "cleanupTimer this") (simp_all add: destroy_def)

lemma destroy_destroy: "destroy (destroy this) = destroy this"
  by (simp add: destroy_eq)

section \<open>The sweep as a filter\<close>

lemma stale_keys_iff:
  "fp \<in> stale_keys cutoff es \<longleftrightarrow> (\<exists>d. (fp, d) \<in> set es \<and> lastSeen d < cutoff)"
  by (force simp: stale_keys_def)

lemma stale_keys_Cons:
  "stale_keys cutoff ((fp, d) # es) =
     (if lastSeen d < cutoff then insert fp (stale_keys cutoff es) else stale_keys cutoff es)"
  by (auto simp: stale_keys_iff)

lemma cleanup_loop_filter:
  "cleanup_loop cutoff es m = filter (\<lambda>(fp, d). fp \<notin> stale_keys cutoff es) m"
proof (induction es arbitrary: m)
  case Nil
  show ?case by (simp add: stale_keys_def)
next
  case (Cons e es)
  obtain fp d where e: "e = (fp, d)" by (cases e)
  show ?case
  proof (cases "lastSeen d < cutoff")
    case True
    have "cleanup_loop cutoff (e # es) m = cleanup_loop cutoff es (AList.delete fp m)"
      by (simp add: e True)
    also have "\<dots> = filter (\<lambda>(k, v). k \<notin> stale_keys cutoff es) (AList.delete fp m)"
      by (rule Cons.IH)
    also have "\<dots> = filter (\<lambda>(k, v). k \<notin> stale_keys cutoff (e # es)) m"
      by (auto simp: e True stale_keys_Cons AList.delete_eq intro: filter_cong)
    finally show ?thesis .
  next
    case False
    then show ?thesis by (simp add: e Cons.IH stale_keys_Cons)
  qed
qed

lemma cleanup_loop_self:
  assumes "distinct (map fst m)"
  shows "cleanup_loop cutoff m m = filter (\<lambda>(fp, d). \<not> lastSeen d < cutoff) m"
proof -
  have "filter (\<lambda>(fp, d). fp \<notin> stale_keys cutoff m) m = filter (\<lambda>(fp, d). \<not> lastSeen d < cutoff) m"
  proof (rule filter_cong [OF refl])
    fix x assume x: "x \<in> set m"
    obtain fp d where xd: "x = (fp, d)" by (cases x)
    have "fp \<in> stale_keys cutoff m \<longleftrightarrow> lastSeen d < cutoff"
    proof
      assume "fp \<in> stale_keys cutoff m"
      then obtain d' where d': "(fp, d') \<in> set m" "lastSeen d' < cutoff"
        by (auto simp: stale_keys_iff)
      from x have "(fp, d) \<in> set m" by (simp add: xd)
      with assms d'(1) have "d' = d" by (rule eq_key_imp_eq_value)
      with d' show "lastSeen d < cutoff" by simp
    next
      assume "lastSeen d < cutoff"
      with x show "fp \<in> stale_keys cutoff m" by (auto simp: stale_keys_iff xd)
    qed
    then show "(case x of (fp, d) \<Rightarrow> fp \<notin> stale_keys cutoff m) = (case x of (fp, d) \<Rightarrow> \<not> lastSeen d < cutoff)"
      by (simp add: xd)
  qed
  then show ?thesis by (simp add: cleanup_loop_filter)
qed

lemma map_of_filter_distinct:
  assumes "distinct (map fst m)"
  shows "map_of (filter (\<lambda>(k, v). P v) m) k =
           (case map_of m k of None \<Rightarrow> None | Some v \<Rightarrow> if P v then Some v else None)"
  using assms
proof (induction m)
  case Nil
  show ?case by simp
next
  case (Cons e m)
  obtain k' v' where e: "e = (k', v')" by (cases e)
  from Cons.prems have notin: "k' \<notin> fst ` set m" and dm: "distinct (map fst m)" by (simp_all add: e)
  have none: "map_of m k' = None" using notin by (simp add: map_of_eq_None_iff)
  show ?case
    using Cons.IH [OF dm] none by (auto simp: e split: option.splits)
qed

section \<open>Well-formed entries along a run\<close>

lemma set_update_subset: "set (AList.update k v al) \<subseteq> insert (k, v) (set al)"
  by (induction al) auto

lemma entries_upto_update:
  assumes "entries_upto t this" and "t \<le> now" and "entry_ok d" and "lastSeen d \<le> now"
  shows "entries_upto now (this\<lparr>errorCounts := AList.update k d (errorCounts this)\<rparr>)"
proof -
  have "\<And>p. p \<in> set (AList.update k d (errorCounts this)) \<Longrightarrow> p = (k, d) \<or> p \<in> set (errorCounts this)"
    using set_update_subset [of k d "errorCounts this"] by auto
  with assms show ?thesis
    by (fastforce simp: entries_upto_def)
qed

lemma entries_upto_shouldReport:
  assumes inv: "entries_upto t this" and le: "t \<le> now"
  shows "entries_upto now (snd (shouldReport this event now))"
proof (cases "map_of (errorCounts this) (getErrorFingerprint event)")
  case None
  show ?thesis
    by (simp add: shouldReport_fresh [OF None] entries_upto_update [OF inv le] entry_ok_def)
next
  case (Some existing)
  then have "(getErrorFingerprint event, existing) \<in> set (errorCounts this)"
    by (rule map_of_SomeD)
  with inv have ok: "entry_ok existing" and ls: "lastSeen existing \<le> t"
    by (auto simp: entries_upto_def)
  show ?thesis
  proof (cases "firstSeen existing < now - windowMs this")
    case True
    show ?thesis
      by (simp add: shouldReport_expired [OF Some True] entries_upto_update [OF inv le] entry_ok_def)
  next
    case within: False
    show ?thesis
    proof (cases "maxReportsPerWindow this \<le> count existing")
      case True
      from ok ls le have "entry_ok (existing\<lparr>lastSeen := now\<rparr>)"
        by (simp add: entry_ok_def)
      then show ?thesis
        by (simp add: shouldReport_capped [OF Some within True] entries_upto_update [OF inv le])
    next
      case False
      then have lt: "count existing < maxReportsPerWindow this" by simp
      from ok ls le have "entry_ok (existing\<lparr>count := count existing + 1, lastSeen := now\<rparr>)"
        by (simp add: entry_ok_def)
      then show ?thesis
        by (simp add: shouldReport_admit [OF Some within lt] entries_upto_update [OF inv le])
    qed
  qed
qed

lemma entries_upto_mono: "entries_upto t this \<Longrightarrow> t \<le> t' \<Longrightarrow> entries_upto t' this"
  by (fastforce simp: entries_upto_def)

lemma entries_upto_cleanup: "entries_upto t this \<Longrightarrow> entries_upto t (cleanup this now)"
  by (auto simp: entries_upto_def cleanup_def Let_def cleanup_loop_filter)

lemma entries_upto_destroy: "entries_upto t (destroy this)"
  by (simp add: entries_upto_def destroy_eq)

lemma clocks_Cons:
  "clocks (c # cs) = (case clock c of None \<Rightarrow> clocks cs | Some t \<Rightarrow> t # clocks cs)"
  by (simp add: clocks_def map_filter_simps split: option.splits)

lemma entries_upto_run:
  assumes "entries_upto t this" and "sorted (clocks calls)" and "\<forall>x \<in> set (clocks calls). t \<le> x"
  shows "\<exists>t'. entries_upto t' (run this calls)"
  using assms
proof (induction calls arbitrary: t this)
  case Nil
  then show ?case by (auto simp: run_def)
next
  case (Cons c cs)
  have run: "run this (c # cs) = run (exec this c) cs" by (simp add: run_def)
  show ?case
  proof (cases c)
    case (ShouldReport event now)
    from Cons.prems have le: "t \<le> now" and s: "sorted (clocks cs)" and b: "\<forall>x \<in> set (clocks cs). now \<le> x"
      by (simp_all add: ShouldReport clocks_Cons)
    have "entries_upto now (exec this c)"
      by (simp add: ShouldReport entries_upto_shouldReport [OF Cons.prems(1) le])
    from Cons.IH [OF this s b] show ?thesis by (simp add: run)
  next
    case (Cleanup now)
    from Cons.prems have le: "t \<le> now" and s: "sorted (clocks cs)" and b: "\<forall>x \<in> set (clocks cs). now \<le> x"
      by (simp_all add: Cleanup clocks_Cons)
    have "entries_upto now (exec this c)"
      by (simp add: Cleanup entries_upto_cleanup entries_upto_mono [OF Cons.prems(1) le])
    from Cons.IH [OF this s b] show ?thesis by (simp add: run)
  next
    case GetStats
    from Cons.prems have s: "sorted (clocks cs)" and b: "\<forall>x \<in> set (clocks cs). t \<le> x"
      by (simp_all add: GetStats clocks_Cons)
    have "entries_upto t (exec this c)"
      by (simp add: GetStats Cons.prems(1))
    from Cons.IH [OF this s b] show ?thesis by (simp add: run)
  next
    case Destroy
    from Cons.prems have s: "sorted (clocks cs)" and b: "\<forall>x \<in> set (clocks cs). t \<le> x"
      by (simp_all add: Destroy clocks_Cons)
    have "entries_upto t (exec this c)"
      by (simp add: Destroy entries_upto_destroy)
    from Cons.IH [OF this s b] show ?thesis by (simp add: run)
  qed
qed

lemma entries_upto_ok: "entries_upto t this \<Longrightarrow> entries_ok this"
  by (auto simp: entries_upto_def entries_ok_def list_all_iff)

lemma sorted_lower_bound:
  fixes xs :: "int list"
  shows "\<exists>t. \<forall>x \<in> set xs. t \<le> x"
proof (cases xs)
  case Nil
  then show ?thesis by simp
next
  case (Cons a as)
  have "\<forall>x \<in> set xs. Min (set xs) \<le> x" by simp
  then show ?thesis ..
qed

text \<open>The keys of the map stay distinct along every run.\<close>

lemma distinct_keys_exec:
  assumes "distinct (map fst (errorCounts this))"
  shows "distinct (map fst (errorCounts (exec this c)))"
proof (cases c)
  case (ShouldReport event now)
  with assms show ?thesis
    by (simp add: shouldReport_def Let_def distinct_update split: option.splits)
next
  case (Cleanup now)
  with assms show ?thesis
    by (simp add: cleanup_def Let_def cleanup_loop_filter distinct_map_filter)
next
  case GetStats
  with assms show ?thesis by simp
next
  case Destroy
  then show ?thesis by (simp add: destroy_eq)
qed

lemma distinct_keys_foldl:
  "distinct (map fst (errorCounts this)) \<Longrightarrow> distinct (map fst (errorCounts (foldl exec this calls)))"
  by (induction calls arbitrary: this) (simp_all add: distinct_keys_exec)

lemma distinct_keys_run:
  "distinct (map fst (errorCounts (run (new_SentryRateLimiter options) calls)))"
  by (simp add: run_def distinct_keys_foldl new_SentryRateLimiter_def Let_def)

section \<open>Calls within one window\<close>

lemma map_upt_Suc0: "map f [0..<Suc n] = f 0 # map (\<lambda>i. f (Suc i)) [0..<n]"
  by (simp only: map_upt_Suc)

lemma cap_within_window:
  assumes "map_of (errorCounts this) k = Some d"
      and "\<forall>(event, now) \<in> set calls.
             getErrorFingerprint event = k \<and> now \<le> firstSeen d + windowMs this"
  shows "shouldReport_all this calls
           = map (\<lambda>i. count d + int i < maxReportsPerWindow this) [0..<length calls]"
  using assms
proof (induction calls arbitrary: this d)
  case Nil
  show ?case by simp
next
  case (Cons c calls)
  obtain event now where c: "c = (event, now)" by (cases c)
  from Cons.prems(2) have k: "getErrorFingerprint event = k"
    and within: "\<not> firstSeen d < now - windowMs this"
    and rest: "\<forall>(event, now) \<in> set calls.
             getErrorFingerprint event = k \<and> now \<le> firstSeen d + windowMs this"
    by (auto simp: c)
  from Cons.prems(1) k have ex: "map_of (errorCounts this) (getErrorFingerprint event) = Some d"
    by simp
  show ?case
  proof (cases "maxReportsPerWindow this \<le> count d")
    case True
    let ?d' = "d\<lparr>lastSeen := now\<rparr>"
    let ?this' = "this\<lparr>errorCounts := AList.update (getErrorFingerprint event) ?d' (errorCounts this)\<rparr>"
    have r: "shouldReport this event now = (False, ?this')"
      by (rule shouldReport_capped [OF ex within True])
    have m: "map_of (errorCounts ?this') k = Some ?d'" by (simp add: update_conv' k)
    have rest': "\<forall>(event, now) \<in> set calls.
             getErrorFingerprint event = k \<and> now \<le> firstSeen ?d' + windowMs ?this'"
      using rest by simp
    have "shouldReport_all ?this' calls
           = map (\<lambda>i. count ?d' + int i < maxReportsPerWindow ?this') [0..<length calls]"
      by (rule Cons.IH [OF m rest'])
    then have "shouldReport_all this (c # calls)
           = False # map (\<lambda>i. count d + int i < maxReportsPerWindow this) [0..<length calls]"
      by (simp add: c r)
    also have "\<dots> = map (\<lambda>i. count d + int i < maxReportsPerWindow this) [0..<length (c # calls)]"
      using True by (simp add: map_upt_Suc0 del: upt_Suc)
    finally show ?thesis .
  next
    case False
    then have lt: "count d < maxReportsPerWindow this" by simp
    let ?d' = "d\<lparr>count := count d + 1, lastSeen := now\<rparr>"
    let ?this' = "this\<lparr>errorCounts := AList.update (getErrorFingerprint event) ?d' (errorCounts this)\<rparr>"
    have r: "shouldReport this event now = (True, ?this')"
      by (rule shouldReport_admit [OF ex within lt])
    have m: "map_of (errorCounts ?this') k = Some ?d'" by (simp add: update_conv' k)
    have rest': "\<forall>(event, now) \<in> set calls.
             getErrorFingerprint event = k \<and> now \<le> firstSeen ?d' + windowMs ?this'"
      using rest by simp
    have "shouldReport_all ?this' calls
           = map (\<lambda>i. count ?d' + int i < maxReportsPerWindow ?this') [0..<length calls]"
      by (rule Cons.IH [OF m rest'])
    then have "shouldReport_all this (c # calls)
           = True # map (\<lambda>i. count d + int (Suc i) < maxReportsPerWindow this) [0..<length calls]"
      by (simp add: c r algebra_simps)
    also have "\<dots> = map (\<lambda>i. count d + int i < maxReportsPerWindow this) [0..<length (c # calls)]"
      using lt by (simp add: map_upt_Suc0 del: upt_Suc)
    finally show ?thesis .
  qed
qed

section \<open>The hashed text determines its parts\<close>



lemma show_nat_small: "n < 10 \<Longrightarrow> show_nat n = [digit_char n]"
  by (subst show_nat.simps) simp

lemma show_nat_big: "\<not> n < 10 \<Longrightarrow> show_nat n = show_nat (n div 10) @ [digit_char (n mod 10)]"
  by (subst show_nat.simps) simp















lemma stacktrace_part_retained:
  "stacktrace_part event = join ''|'' (map frame_text (retained_frames event))"
  by (cases "event_frames event") (simp_all add: stacktrace_part_def retained_frames_def js_or_lit_def)


lemma error_event_parts:
  "type_part (error_event msg ty val fs) = js_or_lit ty ''Error''"
  "message_part (error_event msg ty val fs) = js_or_lit (js_or msg val) ''unknown''"
  "event_frames (error_event msg ty val fs) = fs"
  by (simp_all add: error_event_def type_part_def message_part_def event_frames_def
        first_exception_def index0_def)


lemma fingerprint_text_retained:
  "fingerprint_text event =
     type_part event @ '':'' @ message_part event @ '':'' @
     join ''|'' (map frame_text (retained_frames event))"
  by (simp add: fingerprint_text_def stacktrace_part_retained)

lemma show_int_10:
  "show_int 10 = ''10''" "show_int 11 = ''11''" "show_int 1 = ''1''" "show_int 2 = ''2''"
  "show_int 5 = ''5''"
  by (simp_all add: show_int_def show_nat_small show_nat_big digit_char_def)

lemma event_A_B_parts:
  "type_part event_A = ''TypeError''" "type_part event_B = ''TypeError''"
  "message_part event_A = ''x is undefined''" "message_part event_B = ''x is undefined''"
  "retained_frames event_A = [\<lparr> filename = Some ''app.js'', lineno = Some 10 \<rparr>]"
  "retained_frames event_B = [\<lparr> filename = Some ''app.js'', lineno = Some 11 \<rparr>]"
  by (simp_all add: event_A_def event_B_def error_event_parts js_or_lit_def js_or_def truthy_def
        retained_frames_def slice_arr_def)

section \<open>Worked runs and digests\<close>

text \<open>The digest on the one-block example of FIPS 180-4 and on the texts of the two events.\<close>

lemma sha256_hex_abc:
  "sha256_hex ''abc'' = ''ba7816bf8f01cfea414140de5dae2223b00361a396177a9cb410ff61f20015ad''"
  by code_simp

lemma fingerprint_text_A_B:
  "fingerprint_text event_A = ''TypeError:x is undefined:app.js:10''"
  "fingerprint_text event_B = ''TypeError:x is undefined:app.js:11''"
  by (simp_all add: fingerprint_text_retained event_A_B_parts frame_text_def of_string_def
        of_number_def show_int_10)

lemma sha256_hex_A:
  "sha256_hex ''TypeError:x is undefined:app.js:10''
     = ''390aa3eebec5a66a6d120eda28593c4fdc9dc897471ed52dc83c802f5284c710''"
  by code_simp

lemma sha256_hex_B:
  "sha256_hex ''TypeError:x is undefined:app.js:11''
     = ''d35143beb1aae1a32a363516051ce832aa3546ef847450a23b52adadb3c4e38e''"
  by code_simp

lemma fingerprints_A_B:
  "getErrorFingerprint event_A = ''390aa3eebec5a66a6d120eda28593c4fdc9dc897471ed52dc83c802f5284c710''"
  "getErrorFingerprint event_B = ''d35143beb1aae1a32a363516051ce832aa3546ef847450a23b52adadb3c4e38e''"
  "getErrorFingerprint event_A \<noteq> getErrorFingerprint event_B"
  by (simp_all add: getErrorFingerprint_def fingerprint_text_A_B sha256_hex_A sha256_hex_B)

lemma limiter_2_fields:
  "errorCounts limiter_2 = []" "maxReportsPerWindow limiter_2 = 2" "windowMs limiter_2 = 3600000"
  by (simp_all add: limiter_2_def new_SentryRateLimiter_def nullish_def Let_def)

lemma after_first_report:
  "snd (shouldReport limiter_2 event_A 0)
     = limiter_2\<lparr>errorCounts :=
         [(getErrorFingerprint event_A, \<lparr>count = 1, firstSeen = 0, lastSeen = 0\<rparr>)]\<rparr>"
  by (simp add: shouldReport_def limiter_2_fields)

lemma after_two_reports:
  "run limiter_2 [ShouldReport event_A 0, ShouldReport event_A 1000]
     = limiter_2\<lparr>errorCounts :=
         [(getErrorFingerprint event_A, \<lparr>count = 2, firstSeen = 0, lastSeen = 1000\<rparr>)]\<rparr>"
  by (simp add: run_def after_first_report) (simp add: shouldReport_def limiter_2_fields)

lemma after_A_then_B:
  "run limiter_2 [ShouldReport event_A 0, ShouldReport event_B 3000000]
     = limiter_2\<lparr>errorCounts :=
         [(getErrorFingerprint event_A, \<lparr>count = 1, firstSeen = 0, lastSeen = 0\<rparr>),
          (getErrorFingerprint event_B, \<lparr>count = 1, firstSeen = 3000000, lastSeen = 3000000\<rparr>)]\<rparr>"
  using fingerprints_A_B(3)
  by (simp add: run_def after_first_report) (simp add: shouldReport_def)



section \<open>Properties of the specification\<close>

text \<open>
  C1: cap enforcement. Let the cap be at least one and let a key have no entry. If a
  first call for the key is made at time \<open>t0\<close> and every later call for it is made
  no more than one window length after \<open>t0\<close>, then call number \<open>i\<close> (counted
  from zero) returns true exactly when \<open>i\<close> is below the cap: the first N calls are
  admitted and every later call in the window is dropped.
\<close>

theorem cap_enforcement:
  assumes N: "1 \<le> maxReportsPerWindow this"
      and fresh: "map_of (errorCounts this) k = None"
      and first: "getErrorFingerprint event0 = k"
      and later: "\<forall>(event, now) \<in> set calls.
                    getErrorFingerprint event = k \<and> now - t0 \<le> windowMs this"
  shows "shouldReport_all this ((event0, t0) # calls)
           = map (\<lambda>i. int i < maxReportsPerWindow this) [0..<Suc (length calls)]"
proof -
  let ?d = "\<lparr>count = 1, firstSeen = t0, lastSeen = t0\<rparr>"
  let ?this' = "this\<lparr>errorCounts := AList.update (getErrorFingerprint event0) ?d (errorCounts this)\<rparr>"
  from fresh first have "map_of (errorCounts this) (getErrorFingerprint event0) = None" by simp
  then have r: "shouldReport this event0 t0 = (True, ?this')"
    by (rule shouldReport_fresh)
  have m: "map_of (errorCounts ?this') k = Some ?d" by (simp add: update_conv' first)
  have rest: "\<forall>(event, now) \<in> set calls.
             getErrorFingerprint event = k \<and> now \<le> firstSeen ?d + windowMs ?this'"
    using later by auto
  have "shouldReport_all ?this' calls
           = map (\<lambda>i. count ?d + int i < maxReportsPerWindow ?this') [0..<length calls]"
    by (rule cap_within_window [OF m rest])
  then have "shouldReport_all this ((event0, t0) # calls)
           = True # map (\<lambda>i. int (Suc i) < maxReportsPerWindow this) [0..<length calls]"
    by (simp add: r algebra_simps)
  also have "\<dots> = map (\<lambda>i. int i < maxReportsPerWindow this) [0..<Suc (length calls)]"
    using N by (simp add: map_upt_Suc0 del: upt_Suc)
  finally show ?thesis .
qed

text \<open>
  The scenario of the specification: a cap of two in a window of one hour; the first
  two reports of \<open>event_A\<close> are admitted, the later ones in the window are dropped,
  also the one made exactly one window length after the first.
\<close>

theorem cap_enforcement_witness:
  "shouldReport_all limiter_2 [(event_A, 0), (event_A, 1000), (event_A, 3600000), (event_A, 5)]
     = [True, True, False, False]"
proof -
  have later: "\<forall>(event, now) \<in> set [(event_A, 1000), (event_A, 3600000), (event_A, 5)].
           getErrorFingerprint event = getErrorFingerprint event_A \<and> now - 0 \<le> windowMs limiter_2"
    by (simp add: limiter_2_fields)
  have "shouldReport_all limiter_2 ((event_A, 0) # [(event_A, 1000), (event_A, 3600000), (event_A, 5)])
          = map (\<lambda>i. int i < maxReportsPerWindow limiter_2)
              [0..<Suc (length [(event_A, 1000 :: int), (event_A, 3600000), (event_A, 5)])]"
    by (rule cap_enforcement [OF _ _ refl later]) (simp_all add: limiter_2_fields)
  also have "\<dots> = [True, True, False, False]"
    by (simp add: limiter_2_fields upt_rec)
  finally show ?thesis .
qed

text \<open>
  C2: window reset. When a key has an entry and the call is made more than one window
  length after that entry's \<open>firstSeen\<close>, the call returns true and the entry becomes
  \<open>{count: 1, firstSeen: now, lastSeen: now}\<close>. When the call is made within the
  window, the entry keeps its \<open>firstSeen\<close>: admits do not move the anchor.
\<close>

theorem window_reset:
  assumes "map_of (errorCounts this) (getErrorFingerprint event) = Some existing"
  shows "(firstSeen existing < now - windowMs this \<longrightarrow>
            fst (shouldReport this event now) \<and>
            map_of (errorCounts (snd (shouldReport this event now))) (getErrorFingerprint event)
              = Some \<lparr>count = 1, firstSeen = now, lastSeen = now\<rparr>) \<and>
         (\<not> firstSeen existing < now - windowMs this \<longrightarrow>
            (\<exists>d. map_of (errorCounts (snd (shouldReport this event now))) (getErrorFingerprint event)
                   = Some d \<and> firstSeen d = firstSeen existing))"
proof (intro conjI impI)
  assume old: "firstSeen existing < now - windowMs this"
  note r = shouldReport_expired [OF assms old]
  show "fst (shouldReport this event now)" by (simp add: r)
  show "map_of (errorCounts (snd (shouldReport this event now))) (getErrorFingerprint event)
          = Some \<lparr>count = 1, firstSeen = now, lastSeen = now\<rparr>"
    by (simp add: r update_conv')
next
  assume within: "\<not> firstSeen existing < now - windowMs this"
  show "\<exists>d. map_of (errorCounts (snd (shouldReport this event now))) (getErrorFingerprint event)
               = Some d \<and> firstSeen d = firstSeen existing"
  proof (cases "maxReportsPerWindow this \<le> count existing")
    case True
    show ?thesis by (simp add: shouldReport_capped [OF assms within True] update_conv')
  next
    case False
    then have "count existing < maxReportsPerWindow this" by simp
    then show ?thesis by (simp add: shouldReport_admit [OF assms within] update_conv')
  qed
qed

text \<open>
  After a first report at time 0 with a window of 3600000 ms, a call at 3600001 resets
  the entry, and a call at 3600000 leaves the anchor at 0.
\<close>

theorem window_reset_witness:
  "fst (shouldReport (snd (shouldReport limiter_2 event_A 0)) event_A 3600001) \<and>
   map_of (errorCounts (snd (shouldReport (snd (shouldReport limiter_2 event_A 0)) event_A 3600001)))
     (getErrorFingerprint event_A) = Some \<lparr>count = 1, firstSeen = 3600001, lastSeen = 3600001\<rparr> \<and>
   (\<exists>d. map_of (errorCounts (snd (shouldReport (snd (shouldReport limiter_2 event_A 0)) event_A 3600000)))
          (getErrorFingerprint event_A) = Some d \<and> firstSeen d = 0)"
proof -
  let ?s = "snd (shouldReport limiter_2 event_A 0)"
  have e: "map_of (errorCounts ?s) (getErrorFingerprint event_A)
             = Some \<lparr>count = 1, firstSeen = 0, lastSeen = 0\<rparr>"
    by (simp add: after_first_report)
  have w: "windowMs ?s = 3600000" by (simp add: after_first_report limiter_2_fields)
  from window_reset [OF e, of 3600001] window_reset [OF e, of 3600000] w
  show ?thesis by simp
qed




text \<open>
  C4: eviction. On a map with distinct keys, the sweep at time \<open>now\<close> keeps, in
  order and unchanged, exactly the entries whose \<open>lastSeen\<close> is not below
  \<open>now - windowMs\<close>; every entry below the cutoff is gone, no other field of the
  limiter changes, and \<open>trackedErrors\<close> afterwards is the number of entries kept.
\<close>

theorem cleanup_removes_exactly_stale:
  assumes "distinct (map fst (errorCounts this))"
  shows "errorCounts (cleanup this now)
           = filter (\<lambda>(fp, d). \<not> lastSeen d < now - windowMs this) (errorCounts this) \<and>
         (\<forall>fp. map_of (errorCounts (cleanup this now)) fp =
            (case map_of (errorCounts this) fp of
               None \<Rightarrow> None
             | Some d \<Rightarrow> if lastSeen d < now - windowMs this then None else Some d)) \<and>
         trackedErrors (getStats (cleanup this now))
           = length (filter (\<lambda>(fp, d). \<not> lastSeen d < now - windowMs this) (errorCounts this)) \<and>
         (cleanup this now)\<lparr>errorCounts := errorCounts this\<rparr> = this"
proof -
  have eq: "errorCounts (cleanup this now)
           = filter (\<lambda>(fp, d). \<not> lastSeen d < now - windowMs this) (errorCounts this)"
    by (simp add: cleanup_def Let_def cleanup_loop_self [OF assms])
  have m: "\<And>fp. map_of (errorCounts (cleanup this now)) fp =
            (case map_of (errorCounts this) fp of
               None \<Rightarrow> None
             | Some d \<Rightarrow> if lastSeen d < now - windowMs this then None else Some d)"
    unfolding eq by (simp add: map_of_filter_distinct [OF assms] split: option.splits)
  have t: "trackedErrors (getStats (cleanup this now)) = length (errorCounts (cleanup this now))"
    by (simp add: getStats_def)
  have f: "(cleanup this now)\<lparr>errorCounts := errorCounts this\<rparr> = this"
    by (simp add: cleanup_def Let_def)
  show ?thesis using eq m t f by simp
qed

text \<open>
  Two events tracked at times 0 and 3000000; the sweep at 5000000 (cutoff 1400000)
  removes the first and keeps the second, and the tracked count goes from 2 to 1.
\<close>

theorem cleanup_removes_exactly_stale_witness:
  "distinct (map fst (errorCounts (run limiter_2 [ShouldReport event_A 0, ShouldReport event_B 3000000]))) \<and>
   trackedErrors (getStats (run limiter_2 [ShouldReport event_A 0, ShouldReport event_B 3000000])) = 2 \<and>
   errorCounts (cleanup (run limiter_2 [ShouldReport event_A 0, ShouldReport event_B 3000000]) 5000000)
     = [(getErrorFingerprint event_B, \<lparr>count = 1, firstSeen = 3000000, lastSeen = 3000000\<rparr>)] \<and>
   trackedErrors (getStats
      (cleanup (run limiter_2 [ShouldReport event_A 0, ShouldReport event_B 3000000]) 5000000)) = 1"
proof -
  let ?s = "run limiter_2 [ShouldReport event_A 0, ShouldReport event_B 3000000]"
  have d: "distinct (map fst (errorCounts ?s))"
    using fingerprints_A_B(3) by (simp add: after_A_then_B)
  have t: "trackedErrors (getStats ?s) = 2" by (simp add: after_A_then_B getStats_def)
  from cleanup_removes_exactly_stale [OF d, of 5000000] d t show ?thesis
    by (simp add: after_A_then_B limiter_2_fields)
qed

text \<open>
  C5: a call beyond the cap. When the key's entry is within its window and its count has
  reached the cap, the call returns false and sets that entry's \<open>lastSeen\<close> to
  \<open>now\<close>; its \<open>count\<close> and \<open>firstSeen\<close>, the entries of all other keys, the order
  of the keys and the other fields of the limiter are unchanged.
\<close>

theorem capped_call_touches_lastSeen_only:
  assumes "map_of (errorCounts this) (getErrorFingerprint event) = Some existing"
      and "\<not> firstSeen existing < now - windowMs this"
      and "maxReportsPerWindow this \<le> count existing"
  shows "\<not> fst (shouldReport this event now) \<and>
         map_of (errorCounts (snd (shouldReport this event now))) (getErrorFingerprint event)
           = Some (existing\<lparr>lastSeen := now\<rparr>) \<and>
         count (existing\<lparr>lastSeen := now\<rparr>) = count existing \<and>
         firstSeen (existing\<lparr>lastSeen := now\<rparr>) = firstSeen existing \<and>
         (\<forall>k. k \<noteq> getErrorFingerprint event \<longrightarrow>
            map_of (errorCounts (snd (shouldReport this event now))) k = map_of (errorCounts this) k) \<and>
         map fst (errorCounts (snd (shouldReport this event now))) = map fst (errorCounts this) \<and>
         (snd (shouldReport this event now))\<lparr>errorCounts := errorCounts this\<rparr> = this"
proof -
  note r = shouldReport_capped [OF assms]
  have keys: "map fst (AList.update (getErrorFingerprint event) (existing\<lparr>lastSeen := now\<rparr>) (errorCounts this))
               = map fst (errorCounts this)"
    using assms(1) by (simp add: update_keys map_of_eq_None_iff [symmetric] del: map_of_eq_None_iff)
  show ?thesis
    by (simp add: r update_conv' keys)
qed

text \<open>
  After two admitted reports at times 0 and 1000 under a cap of two, a third call at 2000
  is dropped and leaves \<open>{count: 2, firstSeen: 0, lastSeen: 2000}\<close>.
\<close>

theorem capped_call_touches_lastSeen_only_witness:
  "\<not> fst (shouldReport (run limiter_2 [ShouldReport event_A 0, ShouldReport event_A 1000]) event_A 2000) \<and>
   errorCounts (snd (shouldReport (run limiter_2 [ShouldReport event_A 0, ShouldReport event_A 1000])
       event_A 2000))
     = [(getErrorFingerprint event_A, \<lparr>count = 2, firstSeen = 0, lastSeen = 2000\<rparr>)]"
proof -
  let ?s = "run limiter_2 [ShouldReport event_A 0, ShouldReport event_A 1000]"
  let ?d = "\<lparr>count = 2, firstSeen = 0, lastSeen = 1000\<rparr>"
  have e: "map_of (errorCounts ?s) (getErrorFingerprint event_A) = Some ?d"
    by (simp add: after_two_reports)
  have w: "\<not> firstSeen ?d < 2000 - windowMs ?s"
    by (simp add: after_two_reports limiter_2_fields)
  have c: "maxReportsPerWindow ?s \<le> count ?d"
    by (simp add: after_two_reports limiter_2_fields)
  have l: "errorCounts ?s = [(getErrorFingerprint event_A, ?d)]"
    by (simp add: after_two_reports)
  from capped_call_touches_lastSeen_only [OF e w c] have
    r: "\<not> fst (shouldReport ?s event_A 2000)"
    and m: "map_of (errorCounts (snd (shouldReport ?s event_A 2000))) (getErrorFingerprint event_A)
           = Some (?d\<lparr>lastSeen := 2000\<rparr>)"
    and k: "map fst (errorCounts (snd (shouldReport ?s event_A 2000))) = map fst (errorCounts ?s)"
    by simp_all
  from k l obtain v where v: "errorCounts (snd (shouldReport ?s event_A 2000)) = [(getErrorFingerprint event_A, v)]"
    by (cases "errorCounts (snd (shouldReport ?s event_A 2000))") auto
  with m have "v = \<lparr>count = 2, firstSeen = 0, lastSeen = 2000\<rparr>" by simp
  with r v show ?thesis by simp
qed

text \<open>
  C6: the entry invariant. In every state reached from a new limiter by calls whose clock
  readings do not decrease, every tracked entry has \<open>count \<ge> 1\<close> and
  \<open>firstSeen \<le> lastSeen\<close>; and one more call of any operation (\<open>shouldReport\<close>,
  the sweep, \<open>getStats\<close>, \<open>destroy\<close>) whose clock reading is not earlier keeps it.
\<close>

theorem entries_ok_reachable:
  assumes "sorted (clocks calls)"
  shows "entries_ok (run (new_SentryRateLimiter options) calls) \<and>
         (\<forall>c. sorted (clocks (calls @ [c])) \<longrightarrow>
              entries_ok (exec (run (new_SentryRateLimiter options) calls) c))"
proof -
  have init: "\<And>t. entries_upto t (new_SentryRateLimiter options)"
    by (simp add: entries_upto_def new_SentryRateLimiter_def Let_def)
  have reach: "entries_ok (run (new_SentryRateLimiter options) cs)" if "sorted (clocks cs)" for cs
  proof -
    obtain t where "\<forall>x \<in> set (clocks cs). t \<le> x"
      using sorted_lower_bound by blast
    from entries_upto_run [OF init that this] show ?thesis
      by (auto dest: entries_upto_ok)
  qed
  have "entries_ok (exec (run (new_SentryRateLimiter options) calls) c)"
    if "sorted (clocks (calls @ [c]))" for c
    using reach [OF that] by (simp add: run_def)
  with reach [OF assms] show ?thesis by blast
qed

text \<open>
  A run of five calls with the clock readings 0, 1000, 2000, 4000000, and one more sweep
  after it.
\<close>

theorem entries_ok_reachable_witness:
  "sorted (clocks [ShouldReport event_A 0, ShouldReport event_B 1000, GetStats, Cleanup 2000,
                   ShouldReport event_A 4000000]) \<and>
   entries_ok (run (new_SentryRateLimiter
       \<lparr>opt_maxReportsPerWindow = None, opt_windowHours = None, opt_cleanupIntervalMinutes = None\<rparr>)
     [ShouldReport event_A 0, ShouldReport event_B 1000, GetStats, Cleanup 2000,
      ShouldReport event_A 4000000]) \<and>
   entries_ok (exec (run (new_SentryRateLimiter
       \<lparr>opt_maxReportsPerWindow = None, opt_windowHours = None, opt_cleanupIntervalMinutes = None\<rparr>)
     [ShouldReport event_A 0, ShouldReport event_B 1000, GetStats, Cleanup 2000,
      ShouldReport event_A 4000000]) (Cleanup 4000000))"
proof -
  let ?calls = "[ShouldReport event_A 0, ShouldReport event_B 1000, GetStats, Cleanup 2000,
                   ShouldReport event_A 4000000]"
  have s: "sorted (clocks ?calls)" by (simp add: clocks_def map_filter_simps)
  have s': "sorted (clocks (?calls @ [Cleanup 4000000]))" by (simp add: clocks_def map_filter_simps)
  from entries_ok_reachable [OF s] s s' show ?thesis by blast
qed



text \<open>
  C8: \<open>destroy\<close> is idempotent. It has no failing path; called any number of times in
  succession, on any limiter (also one whose sweeper is already cancelled), it leaves the
  limiter that one call leaves, with no tracked error and no timer.
\<close>

theorem destroy_idempotent:
  "(destroy ^^ Suc n) this = destroy this \<and>
   trackedErrors (getStats ((destroy ^^ Suc n) this)) = 0 \<and>
   errorCounts ((destroy ^^ Suc n) this) = [] \<and>
   cleanupTimer ((destroy ^^ Suc n) this) = None"
proof -
  have "(destroy ^^ Suc n) this = destroy this"
    by (induction n) (simp_all add: destroy_destroy)
  then show ?thesis by (simp add: destroy_eq getStats_def)
qed




end
